theory Spec2Isabelle
  imports
    Main
    "HOL-Library.Char_ord"
    "HOL-Library.List_Lexorder"
    "HOL-Library.Multiset"
    "HOL-Library.Product_Lexorder"
    "HOL-Library.Sublist"
begin

section \<open>The manifest builder \<^verbatim>\<open>generate_images_json.py\<close>\<close>

text \<open>
  The script lists the directory \<^verbatim>\<open>img\<close>, keeps the entry names that pass a prefix and an
  extension check, sorts them with a natural-order key and writes them as a JSON array to
  \<^verbatim>\<open>img/images.json\<close>.

  File names are Python \<^verbatim>\<open>str\<close> values, sequences of code points. They are modelled as
  \<^typ>\<open>string\<close>, one \<^typ>\<open>char\<close> for each code point, which covers the code points below 256.
  On that range \<^verbatim>\<open>str.lower\<close> maps \<^verbatim>\<open>A-Z\<close> and the upper-case letters of the Latin-1
  block (192 to 222 without the multiplication sign 215) to the code point 32 above and
  leaves everything else alone, and the regular expression class \<^verbatim>\<open>\d\<close> matches the ten
  characters \<^verbatim>\<open>0-9\<close> only. Beyond that range \<^verbatim>\<open>\d\<close> matches the decimal digits of
  every script; the numeric part of the sort key is therefore modelled a second time, over
  all code points (\<open>key_number\<close>), and the two models agree on the names they share.
  Python integers are unbounded and are modelled as \<^typ>\<open>int\<close>.
  Strings compare by code point, tuples lexicographically: these are the orders of
  \<^verbatim>\<open>Char_ord\<close>, \<^verbatim>\<open>List_Lexorder\<close> and \<^verbatim>\<open>Product_Lexorder\<close>.
\<close>

subsection \<open>Strings\<close>

definition lower_char :: "char \<Rightarrow> char" where
  "lower_char c =
     (let n = (of_char c :: nat)
      in if (65 \<le> n \<and> n \<le> 90) \<or> (192 \<le> n \<and> n \<le> 222 \<and> n \<noteq> 215)
         then char_of (n + 32) else c)"

text \<open>\<^verbatim>\<open>name.lower()\<close>\<close>

definition lower :: "string \<Rightarrow> string" where
  "lower s = map lower_char s"

text \<open>\<^verbatim>\<open>p.rfind(c)\<close> for a single character: the last index of \<open>c\<close>, or \<open>-1\<close>.\<close>

fun rfind :: "string \<Rightarrow> char \<Rightarrow> int" where
  "rfind [] c = - 1"
| "rfind (x # xs) c =
     (let r = rfind xs c
      in if 0 \<le> r then r + 1 else if x = c then 0 else - 1)"

text \<open>
  \<^verbatim>\<open>os.path.splitext\<close> is \<^verbatim>\<open>genericpath._splitext(p, '/', None, '.')\<close>:
  \<^verbatim>\<open>
    sepIndex = p.rfind(sep)
    dotIndex = p.rfind(extsep)
    if dotIndex > sepIndex:
        # skip all leading dots
        filenameIndex = sepIndex + 1
        while filenameIndex < dotIndex:
            if p[filenameIndex:filenameIndex+1] != extsep:
                return p[:dotIndex], p[dotIndex:]
            filenameIndex += 1
    return p, p[:0]
  \<close>
  The function \<open>skip_dots\<close> is the while loop; it tells whether the loop returns the split.
\<close>

function skip_dots :: "string \<Rightarrow> nat \<Rightarrow> nat \<Rightarrow> bool" where
  "skip_dots p filenameIndex dotIndex =
     (if filenameIndex < dotIndex
      then (if take 1 (drop filenameIndex p) \<noteq> ''.'' then True
            else skip_dots p (filenameIndex + 1) dotIndex)
      else False)"
  by pat_completeness auto
termination
  by (relation "measure (\<lambda>(p, filenameIndex, dotIndex). dotIndex - filenameIndex)") auto

declare skip_dots.simps [simp del]

definition splitext :: "string \<Rightarrow> string \<times> string" where
  "splitext p =
     (let sepIndex = rfind p (CHR ''/'');
          dotIndex = rfind p (CHR ''.'')
      in if dotIndex > sepIndex \<and> skip_dots p (nat (sepIndex + 1)) (nat dotIndex)
         then (take (nat dotIndex) p, drop (nat dotIndex) p)
         else (p, []))"

subsection \<open>The filter\<close>

definition allowed :: "string set" where
  "allowed = {''.jpg'', ''.jpeg'', ''.png'', ''.webp'', ''.gif''}"

text \<open>The condition of the \<^verbatim>\<open>if\<close> in the loop over \<^verbatim>\<open>os.listdir(IMG_DIR)\<close>.\<close>

definition keep :: "string \<Rightarrow> bool" where
  "keep name = (let low = lower name
                in prefix ''img'' low \<and> snd (splitext low) \<in> allowed)"

subsection \<open>The sort key\<close>

definition is_digit :: "char \<Rightarrow> bool" where
  "is_digit c = (CHR ''0'' \<le> c \<and> c \<le> CHR ''9'')"

text \<open>
  \<^verbatim>\<open>re.search(r'(\d+)', s)\<close> tries the start positions from left to right; at the
  first position where a digit stands the greedy \<^verbatim>\<open>\d+\<close> takes all digits that follow.
  The result is \<^verbatim>\<open>m.group(1)\<close>, or \<open>None\<close> when there is no match.
\<close>

fun re_search_digits :: "string \<Rightarrow> string option" where
  "re_search_digits [] = None"
| "re_search_digits (c # cs) =
     (if is_digit c then Some (takeWhile is_digit (c # cs)) else re_search_digits cs)"

text \<open>\<^verbatim>\<open>int(...)\<close> on a string of decimal digits.\<close>

definition digit_val :: "char \<Rightarrow> int" where
  "digit_val c = int (of_char c) - 48"

definition py_int :: "string \<Rightarrow> int" where
  "py_int ds = foldl (\<lambda>acc c. 10 * acc + digit_val c) 0 ds"

definition keyfn :: "string \<Rightarrow> int \<times> string" where
  "keyfn s = (case re_search_digits s of Some g \<Rightarrow> py_int g | None \<Rightarrow> 10 ^ 9, lower s)"

subsection \<open>The numeric part of the key over all code points\<close>

text \<open>
  A \<^verbatim>\<open>str\<close> is a sequence of code points, here integers. In a \<^verbatim>\<open>str\<close> pattern \<^verbatim>\<open>\d\<close>
  matches every Unicode decimal digit (general category Nd), and \<^verbatim>\<open>int\<close> reads each of
  them with its decimal value. The Unicode character database of CPython 3.11 (version
  14.0) has 660 such characters, in 66 blocks of ten that run from a digit zero to its
  digit nine: the ASCII digits from \<^verbatim>\<open>0x30\<close>, the Arabic-Indic digits from \<^verbatim>\<open>0x660\<close>, and so
  on. The list holds the digit zero of every block.
\<close>

definition decimal_zeros :: "int list" where
  "decimal_zeros =
     [0x30, 0x660, 0x6F0, 0x7C0, 0x966, 0x9E6, 0xA66, 0xAE6,
      0xB66, 0xBE6, 0xC66, 0xCE6, 0xD66, 0xDE6, 0xE50, 0xED0,
      0xF20, 0x1040, 0x1090, 0x17E0, 0x1810, 0x1946, 0x19D0, 0x1A80,
      0x1A90, 0x1B50, 0x1BB0, 0x1C40, 0x1C50, 0xA620, 0xA8D0, 0xA900,
      0xA9D0, 0xA9F0, 0xAA50, 0xABF0, 0xFF10, 0x104A0, 0x10D30, 0x11066,
      0x110F0, 0x11136, 0x111D0, 0x112F0, 0x11450, 0x114D0, 0x11650, 0x116C0,
      0x11730, 0x118E0, 0x11950, 0x11C50, 0x11D50, 0x11DA0, 0x16A60, 0x16AC0,
      0x16B50, 0x1D7CE, 0x1D7D8, 0x1D7E2, 0x1D7EC, 0x1D7F6, 0x1E140, 0x1E2F0,
      0x1E950, 0x1FBF0]"

text \<open>\<^verbatim>\<open>\d\<close>, and the decimal value of a digit.\<close>

definition is_decimal :: "int \<Rightarrow> bool" where
  "is_decimal c = list_ex (\<lambda>z. z \<le> c \<and> c < z + 10) decimal_zeros"

definition decimal :: "int \<Rightarrow> int option" where
  "decimal c = map_option (\<lambda>z. c - z) (find (\<lambda>z. z \<le> c \<and> c < z + 10) decimal_zeros)"

text \<open>
  \<^verbatim>\<open>re.search(r'(\d+)', s)\<close> and \<^verbatim>\<open>int(m.group(1))\<close> as above, over code points. \<^verbatim>\<open>int\<close>
  raises \<^verbatim>\<open>ValueError\<close> (here \<open>None\<close>) on the empty string and on a character that is no
  digit; the matched group is a non-empty string of digits.
\<close>

fun re_search_decimal :: "int list \<Rightarrow> int list option" where
  "re_search_decimal [] = None"
| "re_search_decimal (c # cs) =
     (if is_decimal c then Some (takeWhile is_decimal (c # cs)) else re_search_decimal cs)"

fun parse_decimals :: "int \<Rightarrow> int list \<Rightarrow> int option" where
  "parse_decimals acc [] = Some acc"
| "parse_decimals acc (c # cs) =
     (case decimal c of None \<Rightarrow> None | Some d \<Rightarrow> parse_decimals (10 * acc + d) cs)"

definition int_str :: "int list \<Rightarrow> int option" where
  "int_str ds = (if ds = [] then None else parse_decimals 0 ds)"

text \<open>The first component of \<^verbatim>\<open>keyfn(s)\<close>.\<close>

definition key_number :: "int list \<Rightarrow> int option" where
  "key_number s = (case re_search_decimal s of Some g \<Rightarrow> int_str g | None \<Rightarrow> Some (10 ^ 9))"

text \<open>The code points of a name of the first model.\<close>

definition cps :: "string \<Rightarrow> int list" where
  "cps s = map of_char s"

text \<open>
  The reading of claim C4, to compare with: the ASCII digits \<^verbatim>\<open>0-9\<close>, and the first maximal
  run of them in a name.
\<close>

definition ascii_digit :: "int \<Rightarrow> bool" where
  "ascii_digit c = (48 \<le> c \<and> c \<le> 57)"

definition ascii_digit_run :: "int list \<Rightarrow> int list option" where
  "ascii_digit_run s =
     (let r = dropWhile (\<lambda>c. \<not> ascii_digit c) s
      in if r = [] then None else Some (takeWhile ascii_digit r))"

subsection \<open>Filtering and sorting\<close>

text \<open>
  The list \<^verbatim>\<open>files\<close> after the loop and after \<^verbatim>\<open>files.sort(key=keyfn)\<close>. Python's sort
  is stable and compares the keys only; \<^const>\<open>sort_key\<close> is the stable insertion sort. The
  result does not depend on the sorting algorithm: a rearrangement of a list that is sorted
  by key and keeps the order of the elements of equal key is unique
  (\<open>stable_sort_unique\<close> below).
\<close>

definition files_of :: "string list \<Rightarrow> string list" where
  "files_of names = filter keep names"

definition manifest :: "string list \<Rightarrow> string list" where
  "manifest names = sort_key keyfn (files_of names)"

text \<open>
  \<open>precedes a b xs\<close>: some occurrence of \<open>a\<close> in \<open>xs\<close> stands before some occurrence of
  \<open>b\<close>. In a list without repetitions this is the order of the positions.
\<close>

fun precedes :: "'a \<Rightarrow> 'a \<Rightarrow> 'a list \<Rightarrow> bool" where
  "precedes a b [] = False"
| "precedes a b (x # xs) = ((x = a \<and> b \<in> set xs) \<or> precedes a b xs)"

subsection \<open>Serialisation\<close>

text \<open>
  \<^verbatim>\<open>json.dump(files, f, ensure_ascii=False, indent=2)\<close> on a list of strings. A string is
  written between double quotes; the double quote, the backslash and the control characters
  below 32 are escaped (\<^verbatim>\<open>\b \t \n \f \r\<close> by their short forms, the others as
  \<^verbatim>\<open>\u00xx\<close>), every other character is written as it is. With an indent the empty list
  is \<^verbatim>\<open>[]\<close>; otherwise every item stands on a line of its own, indented by two blanks,
  the items separated by a comma, and the closing bracket stands on a last line.
\<close>

definition hex_digit :: "nat \<Rightarrow> char" where
  "hex_digit n = ''0123456789abcdef'' ! (n mod 16)"

definition escape_char :: "char \<Rightarrow> string" where
  "escape_char c =
     (if c = CHR 0x22 then [CHR 0x5C, CHR 0x22]
      else if c = CHR 0x5C then [CHR 0x5C, CHR 0x5C]
      else if c = CHR 0x08 then [CHR 0x5C, CHR ''b'']
      else if c = CHR 0x0C then [CHR 0x5C, CHR ''f'']
      else if c = CHR 0x0A then [CHR 0x5C, CHR ''n'']
      else if c = CHR 0x0D then [CHR 0x5C, CHR ''r'']
      else if c = CHR 0x09 then [CHR 0x5C, CHR ''t'']
      else if (of_char c :: nat) < 32
        then [CHR 0x5C, CHR ''u'', CHR ''0'', CHR ''0'',
              hex_digit (of_char c div 16), hex_digit (of_char c mod 16)]
      else [c])"

definition encode_basestring :: "string \<Rightarrow> string" where
  "encode_basestring s = [CHR 0x22] @ concat (map escape_char s) @ [CHR 0x22]"

fun join :: "string \<Rightarrow> string list \<Rightarrow> string" where
  "join sep [] = []"
| "join sep [x] = x"
| "join sep (x # y # ys) = x @ sep @ join sep (y # ys)"

definition json_dump :: "string list \<Rightarrow> string" where
  "json_dump lst =
     (if lst = [] then ''[]''
      else let newline_indent = [CHR 0x0A] @ ''  ''
           in ''['' @ newline_indent
              @ join ('','' @ newline_indent) (map encode_basestring lst)
              @ [CHR 0x0A] @ '']'')"

text \<open>The file is opened with \<^verbatim>\<open>encoding="utf-8"\<close>: a code point from 128 on is two bytes.\<close>

definition utf8_char :: "char \<Rightarrow> string" where
  "utf8_char c =
     (let n = (of_char c :: nat)
      in if n < 128 then [c] else [char_of (192 + n div 64), char_of (128 + n mod 64)])"

definition utf8 :: "string \<Rightarrow> string" where
  "utf8 s = concat (map utf8_char s)"

subsection \<open>The directory and the run\<close>

text \<open>
  What the script sees of the file system is the path \<^verbatim>\<open>img\<close>: nothing, something that
  is no directory, or a directory with its permissions and its entries in the order in which
  \<^verbatim>\<open>os.listdir\<close> enumerates them. An entry is a name with its kind: a regular file
  with its write permission and its bytes, or a subdirectory. An uncaught exception ends
  the interpreter with exit status 1. The status line that the script prints last goes to
  the console and is left out.
\<close>

datatype error = FileNotFoundError | NotADirectoryError | PermissionError | IsADirectoryError

datatype kind = RegularFile bool string | Subdirectory

datatype node = Missing | NotADirectory | Directory bool bool "(string \<times> kind) list"

fun os_listdir :: "node \<Rightarrow> error + string list" where
  "os_listdir Missing = Inl FileNotFoundError"
| "os_listdir NotADirectory = Inl NotADirectoryError"
| "os_listdir (Directory readable writable es) =
     (if readable then Inr (map fst es) else Inl PermissionError)"

text \<open>
  \<^verbatim>\<open>with open(out_path, "w", encoding="utf-8") as f: json.dump(...)\<close>, as one step. An
  existing regular file is truncated and rewritten in place if it is writable; a new file
  needs a writable directory, and the file system chooses where later listings show it
  (\<open>slot\<close>).
\<close>

definition rewrite :: "string \<Rightarrow> string \<Rightarrow> (string \<times> kind) list \<Rightarrow> (string \<times> kind) list" where
  "rewrite name data es =
     map (\<lambda>(n, k). if n = name then (n, RegularFile True data) else (n, k)) es"

definition create :: "nat \<Rightarrow> string \<Rightarrow> string \<Rightarrow> (string \<times> kind) list \<Rightarrow> (string \<times> kind) list" where
  "create slot name data es = take slot es @ [(name, RegularFile True data)] @ drop slot es"

fun write_file :: "nat \<Rightarrow> string \<Rightarrow> string \<Rightarrow> node \<Rightarrow> error + node" where
  "write_file slot name data Missing = Inl FileNotFoundError"
| "write_file slot name data NotADirectory = Inl NotADirectoryError"
| "write_file slot name data (Directory readable writable es) =
     (case map_of es name of
        Some Subdirectory \<Rightarrow> Inl IsADirectoryError
      | Some (RegularFile w old) \<Rightarrow>
          if w
          then Inr (Directory readable writable (rewrite name data es))
          else Inl PermissionError
      | None \<Rightarrow>
          if writable
          then Inr (Directory readable writable (create slot name data es))
          else Inl PermissionError)"

fun read_file :: "string \<Rightarrow> node \<Rightarrow> string option" where
  "read_file name (Directory readable writable es) =
     (case map_of es name of Some (RegularFile w data) \<Rightarrow> Some data | _ \<Rightarrow> None)"
| "read_file name _ = None"

text \<open>The whole script: the exit status and the file system it leaves.\<close>

definition main :: "nat \<Rightarrow> node \<Rightarrow> nat \<times> node" where
  "main slot fs =
     (case os_listdir fs of
        Inl e \<Rightarrow> (1, fs)
      | Inr names \<Rightarrow>
          (let files = manifest names
           in case write_file slot ''images.json'' (utf8 (json_dump files)) fs of
                Inl e \<Rightarrow> (1, fs)
              | Inr fs' \<Rightarrow> (0, fs')))"

section \<open>Properties\<close>

subsection \<open>Filtering and sorting\<close>

lemma set_manifest: "set (manifest names) = {n \<in> set names. keep n}"
  by (simp add: manifest_def files_of_def)

lemma sorted_manifest: "sorted (map keyfn (manifest names))"
  by (simp add: manifest_def)

lemma manifest_stable:
  "filter (\<lambda>y. keyfn y = k) (manifest names) = filter (\<lambda>y. keyfn y = k) (files_of names)"
  by (simp add: manifest_def sort_key_stable)

lemma stable_sort_unique:
  assumes "mset ys = mset (files_of names)" "sorted (map keyfn ys)"
    "\<And>k. filter (\<lambda>x. keyfn x = k) ys = filter (\<lambda>x. keyfn x = k) (files_of names)"
  shows "ys = manifest names"
proof -
  have "sort_key keyfn (files_of names) = ys"
  proof (rule properties_for_sort_key)
    show "mset ys = mset (files_of names)" by (rule assms(1))
    show "sorted (map keyfn ys)" by (rule assms(2))
    fix k assume "k \<in> set ys"
    have "(\<lambda>x. keyfn k = keyfn x) = (\<lambda>x. keyfn x = keyfn k)" by auto
    then show "filter (\<lambda>x. keyfn k = keyfn x) ys
                 = filter (\<lambda>x. keyfn k = keyfn x) (files_of names)"
      using assms(3) [of "keyfn k"] by simp
  qed
  then show ?thesis by (simp add: manifest_def)
qed

lemma count_list_insort_key:
  "count_list (insort_key f x xs) n = count_list (x # xs) n"
  by (induction xs) auto

lemma count_list_sort_key: "count_list (sort_key f xs) n = count_list xs n"
  by (induction xs) (auto simp: count_list_insort_key)

lemma count_list_filter:
  "count_list (filter P xs) n = (if P n then count_list xs n else 0)"
  by (induction xs) auto

lemma count_list_manifest:
  "count_list (manifest names) n = (if keep n then count_list names n else 0)"
  by (simp add: manifest_def files_of_def count_list_sort_key count_list_filter)

lemma count_list_distinct: "distinct xs \<Longrightarrow> n \<in> set xs \<Longrightarrow> count_list xs n = 1"
  by (induction xs) (auto simp: count_list_0_iff)

subsection \<open>Positions in a list\<close>

lemma precedes_sorted:
  "sorted (map f xs) \<Longrightarrow> precedes a b xs \<Longrightarrow> f a \<le> f b"
  by (induction xs) auto

lemma precedes_total:
  "a \<in> set xs \<Longrightarrow> b \<in> set xs \<Longrightarrow> a \<noteq> b \<Longrightarrow> precedes a b xs \<or> precedes b a xs"
  by (induction xs) auto

lemma precedes_filter:
  "P a \<Longrightarrow> P b \<Longrightarrow> precedes a b (filter P xs) = precedes a b xs"
  by (induction xs) auto

lemma precedes_manifest_less:
  assumes "a \<in> set (manifest names)" "b \<in> set (manifest names)" "keyfn a < keyfn b"
  shows "precedes a b (manifest names) \<and> \<not> precedes b a (manifest names)"
proof -
  have nb: "\<not> precedes b a (manifest names)"
  proof
    assume "precedes b a (manifest names)"
    then have "keyfn b \<le> keyfn a"
      by (rule precedes_sorted [OF sorted_manifest])
    with assms(3) show False by simp
  qed
  from assms have "a \<noteq> b" by auto
  with assms(1,2) have "precedes a b (manifest names) \<or> precedes b a (manifest names)"
    by (rule precedes_total)
  with nb show ?thesis by blast
qed

lemma precedes_manifest_tie:
  assumes "a \<in> set (manifest names)" "b \<in> set (manifest names)" "keyfn a = keyfn b"
  shows "precedes a b (manifest names) = precedes a b names"
proof -
  let ?P = "\<lambda>y. keyfn y = keyfn a"
  have k: "keep a" "keep b" using assms(1,2) by (simp_all add: set_manifest)
  have "precedes a b (manifest names) = precedes a b (filter ?P (manifest names))"
    using assms(3) by (simp add: precedes_filter)
  also have "\<dots> = precedes a b (filter ?P (files_of names))"
    by (simp add: manifest_stable)
  also have "\<dots> = precedes a b (files_of names)"
    using assms(3) by (simp add: precedes_filter)
  also have "\<dots> = precedes a b names"
    using k by (simp add: files_of_def precedes_filter)
  finally show ?thesis .
qed

subsection \<open>Lower case and digits\<close>

lemma is_digit_iff: "is_digit c \<longleftrightarrow> 48 \<le> (of_char c :: nat) \<and> (of_char c :: nat) \<le> 57"
  by (simp add: is_digit_def less_eq_char_def)

lemma of_char_lower_char:
  "(of_char (lower_char c) :: nat) =
     (if (65 \<le> (of_char c :: nat) \<and> (of_char c :: nat) \<le> 90) \<or>
         (192 \<le> (of_char c :: nat) \<and> (of_char c :: nat) \<le> 222 \<and> (of_char c :: nat) \<noteq> 215)
      then of_char c + 32 else of_char c)"
  by (auto simp: lower_char_def Let_def)

lemma is_digit_lower_char [simp]: "is_digit (lower_char c) = is_digit c"
  by (auto simp: is_digit_iff of_char_lower_char)

lemma lower_char_digit: "is_digit c \<Longrightarrow> lower_char c = c"
  by (auto simp: is_digit_iff lower_char_def Let_def)

lemma takeWhile_digit_lower:
  "takeWhile is_digit (map lower_char s) = takeWhile is_digit s"
  by (induction s) (auto simp: lower_char_digit)

lemma re_search_digits_lower: "re_search_digits (lower s) = re_search_digits s"
  unfolding lower_def
  by (induction s) (simp_all add: lower_char_digit takeWhile_digit_lower)

lemma keyfn_eq_iff: "keyfn a = keyfn b \<longleftrightarrow> lower a = lower b"
proof
  assume "lower a = lower b"
  then have "re_search_digits a = re_search_digits b"
    by (metis re_search_digits_lower)
  with \<open>lower a = lower b\<close> show "keyfn a = keyfn b" by (simp add: keyfn_def)
qed (simp add: keyfn_def)

lemma digit_val_range: "is_digit c \<Longrightarrow> 0 \<le> digit_val c \<and> digit_val c \<le> 9"
  by (auto simp: is_digit_iff digit_val_def)

subsection \<open>The digit run and its value\<close>

lemma re_search_digits_run:
  assumes "\<forall>c\<in>set pre. \<not> is_digit c" "run \<noteq> []" "\<forall>c\<in>set run. is_digit c"
    "post = [] \<or> \<not> is_digit (hd post)"
  shows "re_search_digits (pre @ run @ post) = Some run"
  using assms(1)
proof (induction pre)
  case Nil
  obtain r rs where r: "run = r # rs" using assms(2) by (cases run) auto
  have "takeWhile is_digit (run @ post) = run"
    using assms(3,4) by (cases post) auto
  with r assms(3) show ?case by simp
next
  case (Cons c pre)
  then show ?case by simp
qed

lemma re_search_digits_None:
  "re_search_digits s = None \<longleftrightarrow> (\<forall>c\<in>set s. \<not> is_digit c)"
  by (induction s) auto

lemma re_search_digits_Some:
  "re_search_digits s = Some g \<Longrightarrow>
     \<exists>pre post. s = pre @ g @ post \<and> (\<forall>c\<in>set pre. \<not> is_digit c) \<and> g \<noteq> [] \<and>
       (\<forall>c\<in>set g. is_digit c) \<and> (post = [] \<or> \<not> is_digit (hd post))"
proof (induction s)
  case Nil
  then show ?case by simp
next
  case (Cons c cs)
  show ?case
  proof (cases "is_digit c")
    case True
    with Cons.prems have g: "g = takeWhile is_digit (c # cs)" by simp
    have "c # cs = [] @ g @ dropWhile is_digit (c # cs)" unfolding g by simp
    moreover have "\<forall>x\<in>set g. is_digit x" unfolding g by (auto dest: set_takeWhileD)
    moreover have "g \<noteq> []" using True g by simp
    moreover have "dropWhile is_digit (c # cs) = [] \<or> \<not> is_digit (hd (dropWhile is_digit (c # cs)))"
      using hd_dropWhile by blast
    ultimately show ?thesis by (metis empty_iff list.set(1))
  next
    case False
    with Cons.prems have "re_search_digits cs = Some g" by simp
    from Cons.IH [OF this] obtain pre post where
      "cs = pre @ g @ post" "\<forall>c\<in>set pre. \<not> is_digit c" "g \<noteq> []"
       "\<forall>c\<in>set g. is_digit c" "post = [] \<or> \<not> is_digit (hd post)" by blast
    with False have "c # cs = (c # pre) @ g @ post \<and> (\<forall>x\<in>set (c # pre). \<not> is_digit x)
       \<and> g \<noteq> [] \<and> (\<forall>c\<in>set g. is_digit c) \<and> (post = [] \<or> \<not> is_digit (hd post))" by simp
    then show ?thesis by blast
  qed
qed

lemma py_int_snoc: "py_int (ds @ [c]) = 10 * py_int ds + digit_val c"
  by (simp add: py_int_def)

lemma py_int_sum:
  "py_int ds = (\<Sum>i<length ds. digit_val (ds ! i) * 10 ^ (length ds - 1 - i))"
proof (induction ds rule: rev_induct)
  case Nil
  then show ?case by (simp add: py_int_def)
next
  case (snoc c ds)
  have "(\<Sum>i<length ds. digit_val ((ds @ [c]) ! i) * 10 ^ (length (ds @ [c]) - 1 - i))
      = (\<Sum>i<length ds. 10 * (digit_val (ds ! i) * 10 ^ (length ds - 1 - i)))"
  proof (rule sum.cong)
    fix i assume "i \<in> {..<length ds}"
    then have i: "i < length ds" by simp
    then have "length (ds @ [c]) - 1 - i = Suc (length ds - 1 - i)" by simp
    with i show "digit_val ((ds @ [c]) ! i) * 10 ^ (length (ds @ [c]) - 1 - i)
        = 10 * (digit_val (ds ! i) * 10 ^ (length ds - 1 - i))"
      by (simp add: nth_append)
  qed simp
  then show ?case
    by (simp add: py_int_snoc snoc.IH sum_distrib_left)
qed

subsection \<open>Digits of every script\<close>

text \<open>
  On the names of the first model (code points below 256) the two models of the key number
  agree (\<open>key_number_cps\<close>).
\<close>

lemma decimal_None_iff: "decimal c = None \<longleftrightarrow> \<not> is_decimal c"
  by (auto simp: decimal_def is_decimal_def find_None_iff list_ex_iff)

lemma ascii_digit_decimal: "ascii_digit c \<Longrightarrow> is_decimal c \<and> decimal c = Some (c - 48)"
  by (simp add: ascii_digit_def is_decimal_def decimal_def decimal_zeros_def)

lemma is_decimal_below_256:
  "0 \<le> c \<Longrightarrow> c < 256 \<Longrightarrow> is_decimal c \<longleftrightarrow> ascii_digit c"
  by (auto simp: is_decimal_def decimal_zeros_def ascii_digit_def)

lemma of_char_int_range: "0 \<le> (of_char c :: int) \<and> (of_char c :: int) < 256"
proof -
  have "(of_char c :: int) = int (of_char c)" by (simp only: of_nat_of_char)
  moreover have "(of_char c :: nat) < 256" by simp
  ultimately show ?thesis by linarith
qed

lemma ascii_digit_of_char: "ascii_digit (of_char c) \<longleftrightarrow> is_digit c"
proof -
  have "(of_char c :: int) = int (of_char c)" by (simp only: of_nat_of_char)
  then show ?thesis unfolding ascii_digit_def is_digit_iff by linarith
qed

lemma is_decimal_of_char: "is_decimal (of_char c) \<longleftrightarrow> is_digit c"
  using of_char_int_range [of c] by (simp add: is_decimal_below_256 ascii_digit_of_char)

lemma decimal_of_char: "is_digit c \<Longrightarrow> decimal (of_char c) = Some (digit_val c)"
proof -
  assume "is_digit c"
  then have "ascii_digit (of_char c)" by (simp add: ascii_digit_of_char)
  then have "decimal (of_char c) = Some (of_char c - 48)" by (simp add: ascii_digit_decimal)
  moreover have "(of_char c :: int) = int (of_char c)" by (simp only: of_nat_of_char)
  ultimately show ?thesis by (simp add: digit_val_def)
qed

lemma takeWhile_decimal_cps: "takeWhile is_decimal (cps s) = cps (takeWhile is_digit s)"
  by (induction s) (simp_all add: cps_def is_decimal_of_char)

lemma re_search_decimal_cps: "re_search_decimal (cps s) = map_option cps (re_search_digits s)"
proof (induction s)
  case Nil
  then show ?case by (simp add: cps_def)
next
  case (Cons c cs)
  have "takeWhile is_decimal (map of_char cs) = map of_char (takeWhile is_digit cs)"
    using takeWhile_decimal_cps [of cs] by (simp add: cps_def)
  with Cons show ?case by (simp add: cps_def is_decimal_of_char)
qed

lemma parse_decimals_cps:
  "\<forall>c\<in>set g. is_digit c \<Longrightarrow>
     parse_decimals acc (cps g) = Some (foldl (\<lambda>a c. 10 * a + digit_val c) acc g)"
  by (induction g arbitrary: acc) (simp_all add: cps_def decimal_of_char)

lemma re_search_digits_all_digits:
  "re_search_digits s = Some g \<Longrightarrow> g \<noteq> [] \<and> (\<forall>c\<in>set g. is_digit c)"
  by (induction s) (auto split: if_splits dest: set_takeWhileD)

lemma key_number_cps: "key_number (cps s) = Some (fst (keyfn s))"
proof (cases "re_search_digits s")
  case None
  then show ?thesis by (simp add: key_number_def keyfn_def re_search_decimal_cps)
next
  case (Some g)
  then have g: "g \<noteq> []" "\<forall>c\<in>set g. is_digit c"
    using re_search_digits_all_digits by blast+
  then have "int_str (cps g) = Some (py_int g)"
    by (simp add: int_str_def py_int_def parse_decimals_cps) (simp add: cps_def)
  with Some show ?thesis by (simp add: key_number_def keyfn_def re_search_decimal_cps)
qed

lemma re_search_decimal_run:
  assumes "\<forall>c\<in>set pre. \<not> is_decimal c" "run \<noteq> []" "\<forall>c\<in>set run. is_decimal c"
    "post = [] \<or> \<not> is_decimal (hd post)"
  shows "re_search_decimal (pre @ run @ post) = Some run"
  using assms(1)
proof (induction pre)
  case Nil
  obtain r rs where r: "run = r # rs" using assms(2) by (cases run) auto
  have "takeWhile is_decimal (run @ post) = run"
    using assms(3,4) by (cases post) auto
  with r assms(3) show ?case by simp
next
  case (Cons c pre)
  then show ?case by simp
qed

lemma parse_decimals_Some:
  "\<forall>c\<in>set ds. is_decimal c \<Longrightarrow> parse_decimals acc ds \<noteq> None"
proof (induction ds arbitrary: acc)
  case Nil
  then show ?case by simp
next
  case (Cons c ds)
  then obtain d where "decimal c = Some d"
    using decimal_None_iff [of c] by (cases "decimal c") auto
  with Cons show ?case by simp
qed

lemma ascii_digit_run_eq:
  "\<forall>c\<in>set s. is_decimal c \<longrightarrow> ascii_digit c \<Longrightarrow> ascii_digit_run s = re_search_decimal s"
proof (induction s)
  case Nil
  then show ?case by (simp add: ascii_digit_run_def)
next
  case (Cons c cs)
  then have IH: "ascii_digit_run cs = re_search_decimal cs" by simp
  have eq: "is_decimal x = ascii_digit x" if "x \<in> set (c # cs)" for x
    using that Cons.prems ascii_digit_decimal by blast
  show ?case
  proof (cases "ascii_digit c")
    case True
    have "takeWhile ascii_digit cs = takeWhile is_decimal cs"
      by (rule takeWhile_cong) (simp_all add: eq)
    with True eq [of c] show ?thesis by (simp add: ascii_digit_run_def)
  next
    case False
    with eq [of c] IH show ?thesis by (simp add: ascii_digit_run_def Let_def)
  qed
qed

subsection \<open>The extension\<close>

lemma rfind_absent: "c \<notin> set xs \<Longrightarrow> rfind xs c = - 1"
  by (induction xs) (auto simp: Let_def)

lemma rfind_last: "c \<notin> set ys \<Longrightarrow> rfind (xs @ c # ys) c = int (length xs)"
  by (induction xs) (auto simp: Let_def rfind_absent)

lemma skip_dots_first:
  "0 < d \<Longrightarrow> p \<noteq> [] \<Longrightarrow> hd p \<noteq> CHR ''.'' \<Longrightarrow> skip_dots p 0 d"
  by (cases p) (simp_all add: skip_dots.simps)

lemma lower_char_slash [simp]: "lower_char c = CHR ''/'' \<longleftrightarrow> c = CHR ''/''"
proof -
  have "lower_char c = CHR ''/'' \<longleftrightarrow> (of_char (lower_char c) :: nat) = of_char (CHR ''/'')"
    by (simp only: of_char_eq_iff)
  also have "\<dots> \<longleftrightarrow> (of_char c :: nat) = of_char (CHR ''/'')"
    by (auto simp: of_char_lower_char)
  also have "\<dots> \<longleftrightarrow> c = CHR ''/''" by (simp only: of_char_eq_iff)
  finally show ?thesis .
qed

lemma slash_lower: "CHR ''/'' \<in> set (lower n) \<longleftrightarrow> CHR ''/'' \<in> set n"
proof -
  have "CHR ''/'' \<in> set (lower n) \<longleftrightarrow> (\<exists>x\<in>set n. lower_char x = CHR ''/'')"
    unfolding lower_def by (simp only: set_map image_iff) metis
  then show ?thesis by simp
qed

text \<open>
  For a name that starts with \<^verbatim>\<open>img\<close> and holds no slash, the extension is the part from
  the last dot on.
\<close>

lemma splitext_img:
  assumes "prefix ''img'' p" "CHR ''/'' \<notin> set p"
  shows "snd (splitext p) = e \<and> e \<noteq> [] \<longleftrightarrow>
         (\<exists>stem rest. p = stem @ CHR ''.'' # rest \<and> CHR ''.'' \<notin> set rest \<and> e = CHR ''.'' # rest)"
proof -
  have sep: "rfind p (CHR ''/'') = - 1" using assms(2) by (rule rfind_absent)
  from assms(1) obtain q where p: "p = CHR ''i'' # q" by (auto simp: prefix_def)
  show ?thesis
  proof (cases "CHR ''.'' \<in> set p")
    case False
    then have "rfind p (CHR ''.'') = - 1" by (rule rfind_absent)
    with sep have "snd (splitext p) = []" by (simp add: splitext_def)
    with False show ?thesis by auto
  next
    case True
    then obtain stem rest where sr: "p = stem @ CHR ''.'' # rest" "CHR ''.'' \<notin> set rest"
      by (auto dest: split_list_last)
    then have dot: "rfind p (CHR ''.'') = int (length stem)" by (simp add: rfind_last)
    have "stem \<noteq> []" using sr(1) p by (cases stem) auto
    then have "skip_dots p 0 (length stem)"
      using p by (intro skip_dots_first) auto
    with sep dot have "snd (splitext p) = drop (length stem) p"
      by (simp add: splitext_def)
    then have ext: "snd (splitext p) = CHR ''.'' # rest" using sr(1) by simp
    have uniq: "stem' = stem \<and> rest' = rest"
      if "p = stem' @ CHR ''.'' # rest'" "CHR ''.'' \<notin> set rest'" for stem' rest'
    proof -
      have "rfind p (CHR ''.'') = int (length stem')" using that by (simp add: rfind_last)
      with dot have "length stem' = length stem" by simp
      with that(1) sr(1) show ?thesis by auto
    qed
    show ?thesis
    proof
      assume "snd (splitext p) = e \<and> e \<noteq> []"
      with ext sr show "\<exists>stem rest. p = stem @ CHR ''.'' # rest \<and> CHR ''.'' \<notin> set rest \<and> e = CHR ''.'' # rest"
        by auto
    next
      assume "\<exists>stem rest. p = stem @ CHR ''.'' # rest \<and> CHR ''.'' \<notin> set rest \<and> e = CHR ''.'' # rest"
      with uniq ext show "snd (splitext p) = e \<and> e \<noteq> []" by auto
    qed
  qed
qed

lemma keep_iff_suffix:
  assumes "CHR ''/'' \<notin> set n"
  shows "keep n \<longleftrightarrow> prefix ''img'' (lower n) \<and> (\<exists>e\<in>allowed. suffix e (lower n))"
proof (cases "prefix ''img'' (lower n)")
  case False
  then show ?thesis by (simp add: keep_def)
next
  case True
  have ns: "CHR ''/'' \<notin> set (lower n)" using assms by (simp add: slash_lower)
  note ch = splitext_img [OF True ns]
  have "snd (splitext (lower n)) \<in> allowed \<longleftrightarrow> (\<exists>e\<in>allowed. suffix e (lower n))"
  proof
    assume a: "snd (splitext (lower n)) \<in> allowed"
    then have "snd (splitext (lower n)) \<noteq> []" by (auto simp: allowed_def)
    with ch [of "snd (splitext (lower n))"] obtain stem rest where
      "lower n = stem @ CHR ''.'' # rest" "snd (splitext (lower n)) = CHR ''.'' # rest" by auto
    then have "suffix (snd (splitext (lower n))) (lower n)" by (simp add: suffix_def)
    with a show "\<exists>e\<in>allowed. suffix e (lower n)" by blast
  next
    assume "\<exists>e\<in>allowed. suffix e (lower n)"
    then obtain e stem where e: "e \<in> allowed" "lower n = stem @ e" by (auto simp: suffix_def)
    then obtain rest where r: "e = CHR ''.'' # rest" "CHR ''.'' \<notin> set rest"
      by (auto simp: allowed_def)
    with e ch [of e] have "snd (splitext (lower n)) = e" by auto
    with e show "snd (splitext (lower n)) \<in> allowed" by simp
  qed
  with True show ?thesis by (simp add: keep_def)
qed

subsection \<open>Writing the file\<close>

lemma not_keep_images_json: "\<not> keep ''images.json''"
  by code_simp

lemma manifest_create:
  "\<not> keep name \<Longrightarrow> manifest (map fst (create slot name data es)) = manifest (map fst es)"
proof -
  assume nk: "\<not> keep name"
  have "files_of (map fst (create slot name data es))
      = filter keep (take slot (map fst es) @ drop slot (map fst es))"
    using nk by (simp add: files_of_def create_def take_map drop_map)
  then show ?thesis by (simp add: manifest_def files_of_def)
qed

lemma map_fst_rewrite: "map fst (rewrite name data es) = map fst es"
  by (induction es) (auto simp: rewrite_def)

lemma map_of_rewrite:
  "map_of es name = Some k \<Longrightarrow> map_of (rewrite name data es) name = Some (RegularFile True data)"
  by (induction es) (auto simp: rewrite_def split: if_splits)

lemma rewrite_idem: "rewrite name data (rewrite name data es) = rewrite name data es"
  by (induction es) (auto simp: rewrite_def)

lemma rewrite_absent: "map_of es name = None \<Longrightarrow> rewrite name data es = es"
  by (induction es) (auto simp: rewrite_def split: if_splits)

lemma map_of_create:
  "map_of es name = None \<Longrightarrow>
     map_of (create slot name data es) name = Some (RegularFile True data)"
proof -
  assume n: "map_of es name = None"
  then have "name \<notin> fst ` set es" by (simp add: map_of_eq_None_iff)
  then have "name \<notin> fst ` set (take slot es)" by (auto dest: in_set_takeD)
  then have "map_of (take slot es) name = None" by (simp add: map_of_eq_None_iff)
  then show ?thesis by (simp add: create_def map_add_def)
qed

lemma rewrite_create:
  "map_of es name = None \<Longrightarrow>
     rewrite name data (create slot name data es) = create slot name data es"
proof -
  assume n: "map_of es name = None"
  then have "name \<notin> fst ` set es" by (simp add: map_of_eq_None_iff)
  then have a: "name \<notin> fst ` set (take slot es)" and b: "name \<notin> fst ` set (drop slot es)"
    by (auto dest: in_set_takeD in_set_dropD)
  have "rewrite name data (take slot es) = take slot es"
    using a by (intro rewrite_absent) (simp add: map_of_eq_None_iff)
  moreover have "rewrite name data (drop slot es) = drop slot es"
    using b by (intro rewrite_absent) (simp add: map_of_eq_None_iff)
  ultimately show ?thesis
    by (simp add: create_def rewrite_def)
qed

lemma write_file_Inr:
  assumes "write_file slot name data fs = Inr fs1"
  shows "\<exists>r w es. fs = Directory r w es \<and>
           ((map_of es name = None \<and> w \<and> fs1 = Directory r w (create slot name data es)) \<or>
            (\<exists>old. map_of es name = Some (RegularFile True old) \<and>
                   fs1 = Directory r w (rewrite name data es)))"
  using assms by (cases fs) (auto split: option.splits kind.splits if_splits)

lemma write_file_again:
  assumes "map_of es name = Some (RegularFile True data)" "rewrite name data es = es"
  shows "write_file slot name data (Directory r w es) = Inr (Directory r w es)"
  using assms by simp

lemma main_Inr:
  "os_listdir fs = Inr names \<Longrightarrow>
     main slot fs =
       (case write_file slot ''images.json'' (utf8 (json_dump (manifest names))) fs of
          Inl e \<Rightarrow> (1, fs) | Inr fs' \<Rightarrow> (0, fs'))"
  by (simp add: main_def)

lemma main_Inl: "os_listdir fs = Inl e \<Longrightarrow> main slot fs = (1, fs)"
  by (simp add: main_def)

lemma main_success:
  assumes "main slot fs = (0, fs1)"
  shows "\<exists>w es es1. fs = Directory True w es \<and> fs1 = Directory True w es1 \<and>
           map_of es1 ''images.json''
             = Some (RegularFile True (utf8 (json_dump (manifest (map fst es))))) \<and>
           manifest (map fst es1) = manifest (map fst es) \<and>
           rewrite ''images.json'' (utf8 (json_dump (manifest (map fst es)))) es1 = es1"
proof -
  obtain names where l: "os_listdir fs = Inr names"
    using assms by (cases "os_listdir fs") (simp_all add: main_Inl)
  let ?data = "utf8 (json_dump (manifest names))"
  have wf: "write_file slot ''images.json'' ?data fs = Inr fs1"
    using assms by (cases "write_file slot ''images.json'' ?data fs") (simp_all add: main_Inr [OF l])
  from write_file_Inr [OF wf] obtain r w es where fs: "fs = Directory r w es"
    and c: "(map_of es ''images.json'' = None \<and> w \<and>
               fs1 = Directory r w (create slot ''images.json'' ?data es)) \<or>
            (\<exists>old. map_of es ''images.json'' = Some (RegularFile True old) \<and>
                   fs1 = Directory r w (rewrite ''images.json'' ?data es))"
    by blast
  from l fs have r: "r" and names: "names = map fst es"
    by (auto split: if_splits)
  from c show ?thesis
  proof
    assume "map_of es ''images.json'' = None \<and> w \<and>
               fs1 = Directory r w (create slot ''images.json'' ?data es)"
    then show ?thesis
      using fs r names
      by (auto simp: map_of_create manifest_create not_keep_images_json rewrite_create)
  next
    assume "\<exists>old. map_of es ''images.json'' = Some (RegularFile True old) \<and>
                   fs1 = Directory r w (rewrite ''images.json'' ?data es)"
    then show ?thesis
      using fs r names
      by (auto simp: map_of_rewrite map_fst_rewrite rewrite_idem)
  qed
qed

lemma sorted_lower_unnumbered:
  "sorted (map lower (filter (\<lambda>n. re_search_digits n = None) (manifest names)))"
proof -
  let ?P = "\<lambda>n. re_search_digits n = None"
  have "sorted_wrt (\<lambda>x y. keyfn x \<le> keyfn y) (manifest names)"
    using sorted_manifest [of names] by (simp add: sorted_map)
  then have "sorted_wrt (\<lambda>x y. keyfn x \<le> keyfn y) (filter ?P (manifest names))"
    by (rule sorted_wrt_filter)
  then have "sorted_wrt (\<lambda>x y. lower x \<le> lower y) (filter ?P (manifest names))"
    by (rule sorted_wrt_mono_rel [rotated]) (auto simp: keyfn_def)
  then show ?thesis by (simp add: sorted_map)
qed

section \<open>The claims\<close>

text \<open>
  The scenario of the specification: the directory holds \<^verbatim>\<open>img2.png\<close>, \<^verbatim>\<open>img10.webp\<close>,
  \<^verbatim>\<open>img1.jpg\<close>, \<^verbatim>\<open>cover.png\<close> and \<^verbatim>\<open>IMG3.GIF\<close>.
\<close>

lemma scenario_manifest:
  "manifest [''img2.png'', ''img10.webp'', ''img1.jpg'', ''cover.png'', ''IMG3.GIF'']
     = [''img1.jpg'', ''img2.png'', ''IMG3.GIF'', ''img10.webp'']"
  by code_simp

lemma scenario_empty: "manifest [] = [] \<and> json_dump (manifest [''cover.png'']) = ''[]''"
  by code_simp

text \<open>The bytes written for two names: one name on each line, two blanks before it.\<close>

lemma scenario_json:
  "utf8 (json_dump (manifest [''img2.png'', ''img1.jpg'']))
     = ''['' @ [CHR 0x0A]
       @ ''  '' @ [CHR 0x22] @ ''img1.jpg'' @ [CHR 0x22] @ '','' @ [CHR 0x0A]
       @ ''  '' @ [CHR 0x22] @ ''img2.png'' @ [CHR 0x22] @ [CHR 0x0A]
       @ '']''"
  by code_simp

subsection \<open>C1: what the manifest contains\<close>

text \<open>
  Claim C1. For every list of directory entry names, the manifest contains exactly the
  names whose lowercased form starts with \<^verbatim>\<open>img\<close> and whose lowercased extension is one of
  \<^verbatim>\<open>.jpg .jpeg .png .webp .gif\<close>, and no other name. Both checks read the lowercased name
  only, so two names that differ in letter case alone are both in or both out. For an entry
  name (it holds no slash) the extension check says that the lowercased name ends with one
  of the five extensions.
\<close>

theorem C1_manifest_exact:
  "set (manifest names)
     = {n \<in> set names. prefix ''img'' (lower n) \<and> snd (splitext (lower n)) \<in> allowed}
   \<and> (\<forall>a b. a \<in> set names \<and> b \<in> set names \<and> lower a = lower b \<longrightarrow>
          (a \<in> set (manifest names) \<longleftrightarrow> b \<in> set (manifest names)))
   \<and> (\<forall>n. n \<in> set names \<and> CHR ''/'' \<notin> set n \<longrightarrow>
          (n \<in> set (manifest names) \<longleftrightarrow>
             prefix ''img'' (lower n) \<and> (\<exists>e\<in>allowed. suffix e (lower n))))"
proof -
  have 1: "set (manifest names)
     = {n \<in> set names. prefix ''img'' (lower n) \<and> snd (splitext (lower n)) \<in> allowed}"
    by (simp add: set_manifest keep_def Let_def)
  have 2: "a \<in> set (manifest names) \<longleftrightarrow> b \<in> set (manifest names)"
    if "a \<in> set names" "b \<in> set names" "lower a = lower b" for a b
    using that by (simp add: set_manifest keep_def Let_def)
  have 3: "n \<in> set (manifest names) \<longleftrightarrow>
             prefix ''img'' (lower n) \<and> (\<exists>e\<in>allowed. suffix e (lower n))"
    if "n \<in> set names" "CHR ''/'' \<notin> set n" for n
    using that keep_iff_suffix [of n] by (simp add: set_manifest)
  from 1 2 3 show ?thesis by blast
qed

text \<open>\<^verbatim>\<open>IMG5.PNG\<close> and \<^verbatim>\<open>img5.png\<close> are both listed; \<^verbatim>\<open>img7.txt\<close> is not.\<close>

theorem C1_manifest_exact_witness:
  "lower ''IMG5.PNG'' = lower ''img5.png''
   \<and> ''IMG5.PNG'' \<in> set (manifest [''IMG5.PNG'', ''img5.png'', ''cover.png'', ''img7.txt''])
   \<and> ''img5.png'' \<in> set (manifest [''IMG5.PNG'', ''img5.png'', ''cover.png'', ''img7.txt''])
   \<and> CHR ''/'' \<notin> set ''img7.txt''
   \<and> ''img7.txt'' \<notin> set (manifest [''IMG5.PNG'', ''img5.png'', ''cover.png'', ''img7.txt''])"
proof -
  let ?names = "[''IMG5.PNG'', ''img5.png'', ''cover.png'', ''img7.txt'']"
  have h: "''IMG5.PNG'' \<in> set ?names \<and> ''img5.png'' \<in> set ?names
             \<and> lower ''IMG5.PNG'' = lower ''img5.png''"
    by code_simp
  have m: "''IMG5.PNG'' \<in> set (manifest ?names)" by code_simp
  have t: "''img7.txt'' \<in> set ?names \<and> CHR ''/'' \<notin> set ''img7.txt''" by code_simp
  have s: "\<not> (\<exists>e\<in>allowed. suffix e (lower ''img7.txt''))"
    by (simp add: allowed_def lower_def lower_char_def suffix_def)
  from C1_manifest_exact [of ?names] h m t s show ?thesis by blast
qed

subsection \<open>C2: the order of the numbered names\<close>

text \<open>
  Claim C2 says that, for names \<open>a\<close> and \<open>b\<close> with a digit run, \<open>a\<close> precedes \<open>b\<close> in the
  manifest if and only if the number of \<open>a\<close> is less than the number of \<open>b\<close>, or the
  numbers are equal and the lowercased name of \<open>a\<close> is at most that of \<open>b\<close>. Two names that
  differ in letter case only have the same key, so the right-hand side holds in both
  directions, while only one of the two stands first. With the listing \<^verbatim>\<open>img5.png\<close>,
  \<^verbatim>\<open>IMG5.PNG\<close> the manifest keeps that order, and \<^verbatim>\<open>IMG5.PNG\<close> does not precede
  \<^verbatim>\<open>img5.png\<close>.
\<close>

theorem C2_counterexample:
  "''IMG5.PNG'' \<in> set (manifest [''img5.png'', ''IMG5.PNG''])
   \<and> ''img5.png'' \<in> set (manifest [''img5.png'', ''IMG5.PNG''])
   \<and> re_search_digits ''IMG5.PNG'' = Some ''5'' \<and> re_search_digits ''img5.png'' = Some ''5''
   \<and> \<not> (precedes ''IMG5.PNG'' ''img5.png'' (manifest [''img5.png'', ''IMG5.PNG''])
          \<longleftrightarrow> py_int ''5'' < py_int ''5''
               \<or> py_int ''5'' = py_int ''5'' \<and> lower ''IMG5.PNG'' \<le> lower ''img5.png'')"
  by code_simp

text \<open>
  Claim C2, amended. For names \<open>a\<close> and \<open>b\<close> of the manifest that both contain a digit run:
  if their lowercased names differ, \<open>a\<close> precedes \<open>b\<close> if and only if the integer of the
  first digit run of \<open>a\<close> is less than that of \<open>b\<close>, or the two integers are equal and the
  lowercased name of \<open>a\<close> is at most that of \<open>b\<close>; if their lowercased names are equal
  (the names differ in letter case only), \<open>a\<close> precedes \<open>b\<close> in the manifest if and only
  if it does in the directory listing: the sort is stable.
\<close>

theorem C2_order_of_numbered:
  assumes "a \<in> set (manifest names)" "b \<in> set (manifest names)"
    "re_search_digits a = Some ga" "re_search_digits b = Some gb"
  shows "(lower a \<noteq> lower b \<longrightarrow>
            (precedes a b (manifest names) \<longleftrightarrow>
               py_int ga < py_int gb \<or> py_int ga = py_int gb \<and> lower a \<le> lower b))
       \<and> (lower a = lower b \<longrightarrow>
            (precedes a b (manifest names) \<longleftrightarrow> precedes a b names))"
proof (cases "lower a = lower b")
  case True
  then have "keyfn a = keyfn b" by (simp add: keyfn_eq_iff)
  with assms(1,2) have "precedes a b (manifest names) = precedes a b names"
    by (rule precedes_manifest_tie)
  with True show ?thesis by simp
next
  case False
  then have ne: "keyfn a \<noteq> keyfn b" by (simp add: keyfn_eq_iff)
  have ka: "keyfn a = (py_int ga, lower a)" and kb: "keyfn b = (py_int gb, lower b)"
    using assms(3,4) by (simp_all add: keyfn_def)
  have "precedes a b (manifest names) \<longleftrightarrow> keyfn a < keyfn b"
  proof
    assume "precedes a b (manifest names)"
    then have "keyfn a \<le> keyfn b" by (rule precedes_sorted [OF sorted_manifest])
    with ne show "keyfn a < keyfn b" by simp
  next
    assume "keyfn a < keyfn b"
    with assms(1,2) show "precedes a b (manifest names)"
      by (simp add: precedes_manifest_less)
  qed
  also have "\<dots> \<longleftrightarrow> py_int ga < py_int gb \<or> py_int ga = py_int gb \<and> lower a \<le> lower b"
    using False by (auto simp: ka kb)
  finally show ?thesis using False by simp
qed

text \<open>
  In the listing \<^verbatim>\<open>img10.png\<close>, \<^verbatim>\<open>img5.png\<close>, \<^verbatim>\<open>IMG5.PNG\<close>, \<^verbatim>\<open>img2.png\<close> the name
  \<^verbatim>\<open>img2.png\<close> comes before \<^verbatim>\<open>img10.png\<close>, and \<^verbatim>\<open>img5.png\<close> stays before
  \<^verbatim>\<open>IMG5.PNG\<close>.
\<close>

theorem C2_order_of_numbered_witness:
  "precedes ''img2.png'' ''img10.png''
     (manifest [''img10.png'', ''img5.png'', ''IMG5.PNG'', ''img2.png''])
   \<and> \<not> precedes ''img10.png'' ''img2.png''
     (manifest [''img10.png'', ''img5.png'', ''IMG5.PNG'', ''img2.png''])
   \<and> precedes ''img5.png'' ''IMG5.PNG''
     (manifest [''img10.png'', ''img5.png'', ''IMG5.PNG'', ''img2.png''])"
proof -
  let ?names = "[''img10.png'', ''img5.png'', ''IMG5.PNG'', ''img2.png'']"
  have m: "''img2.png'' \<in> set (manifest ?names)" "''img10.png'' \<in> set (manifest ?names)"
    "''img5.png'' \<in> set (manifest ?names)" "''IMG5.PNG'' \<in> set (manifest ?names)"
    by code_simp+
  have d: "re_search_digits ''img2.png'' = Some ''2''"
    "re_search_digits ''img10.png'' = Some ''10''"
    "re_search_digits ''img5.png'' = Some ''5''" "re_search_digits ''IMG5.PNG'' = Some ''5''"
    by code_simp+
  have v: "lower ''img2.png'' \<noteq> lower ''img10.png''" "py_int ''2'' < py_int ''10''"
    "lower ''img5.png'' = lower ''IMG5.PNG''" "precedes ''img5.png'' ''IMG5.PNG'' ?names"
    by code_simp+
  from C2_order_of_numbered [OF m(1) m(2) d(1) d(2)] v(1,2)
  have 1: "precedes ''img2.png'' ''img10.png'' (manifest ?names)" by blast
  from C2_order_of_numbered [OF m(2) m(1) d(2) d(1)] v(1,2)
  have 2: "\<not> precedes ''img10.png'' ''img2.png'' (manifest ?names)" by auto
  from C2_order_of_numbered [OF m(3) m(4) d(3) d(4)] v(3,4)
  have 3: "precedes ''img5.png'' ''IMG5.PNG'' (manifest ?names)" by blast
  from 1 2 3 show ?thesis by blast
qed

subsection \<open>C3: names without a digit run\<close>

text \<open>
  Claim C3 says that every name without a digit run stands after every name with one. The
  key of a name without digits holds the number \<open>10 ^ 9\<close>, and a digit run may parse to
  more: \<^verbatim>\<open>imga.png\<close> is placed before \<^verbatim>\<open>img2000000000.png\<close>.
\<close>

theorem C3_counterexample:
  "re_search_digits ''imga.png'' = None
   \<and> re_search_digits ''img2000000000.png'' = Some ''2000000000''
   \<and> manifest [''img2000000000.png'', ''imga.png''] = [''imga.png'', ''img2000000000.png'']
   \<and> precedes ''imga.png'' ''img2000000000.png''
        (manifest [''img2000000000.png'', ''imga.png''])
   \<and> \<not> precedes ''img2000000000.png'' ''imga.png''
        (manifest [''img2000000000.png'', ''imga.png''])"
  by code_simp

text \<open>
  Claim C3, amended. In every manifest the names without a digit run are ordered among
  themselves by their lowercased names, and every name without a digit run stands after
  every name whose first digit run parses to an integer below \<open>10 ^ 9\<close>.
\<close>

theorem C3_unnumbered_last:
  "sorted (map lower (filter (\<lambda>n. re_search_digits n = None) (manifest names)))
   \<and> (\<forall>a b g. a \<in> set (manifest names) \<and> b \<in> set (manifest names)
          \<and> re_search_digits a = None \<and> re_search_digits b = Some g \<and> py_int g < 10 ^ 9
        \<longrightarrow> precedes b a (manifest names) \<and> \<not> precedes a b (manifest names))"
proof -
  have "precedes b a (manifest names) \<and> \<not> precedes a b (manifest names)"
    if "a \<in> set (manifest names)" "b \<in> set (manifest names)"
      "re_search_digits a = None" "re_search_digits b = Some g" "py_int g < 10 ^ 9" for a b g
  proof -
    have "keyfn b < keyfn a" using that(3,4,5) by (simp add: keyfn_def)
    with that(1,2) show ?thesis by (simp add: precedes_manifest_less)
  qed
  with sorted_lower_unnumbered show ?thesis by blast
qed

text \<open>\<^verbatim>\<open>img7.png\<close> comes first, then \<^verbatim>\<open>imgA.png\<close> and \<^verbatim>\<open>imgb.png\<close>.\<close>

theorem C3_unnumbered_last_witness:
  "manifest [''imgb.png'', ''img7.png'', ''imgA.png'']
     = [''img7.png'', ''imgA.png'', ''imgb.png'']
   \<and> precedes ''img7.png'' ''imgb.png'' (manifest [''imgb.png'', ''img7.png'', ''imgA.png''])
   \<and> \<not> precedes ''imgb.png'' ''img7.png''
        (manifest [''imgb.png'', ''img7.png'', ''imgA.png''])"
proof -
  let ?names = "[''imgb.png'', ''img7.png'', ''imgA.png'']"
  have h: "''imgb.png'' \<in> set (manifest ?names) \<and> ''img7.png'' \<in> set (manifest ?names)
          \<and> re_search_digits ''imgb.png'' = None \<and> re_search_digits ''img7.png'' = Some ''7''
          \<and> py_int ''7'' < 10 ^ 9"
    by code_simp
  have m: "manifest ?names = [''img7.png'', ''imgA.png'', ''imgb.png'']" by code_simp
  from C3_unnumbered_last [of ?names] h
  have "precedes ''img7.png'' ''imgb.png'' (manifest ?names)
        \<and> \<not> precedes ''imgb.png'' ''img7.png'' (manifest ?names)" by blast
  with m show ?thesis by blast
qed

subsection \<open>C4: the first digit run\<close>

text \<open>
  Only the first run counts, wherever it stands; what follows it, later digit runs
  included, is compared as text: \<^verbatim>\<open>img1_10.png\<close> comes before \<^verbatim>\<open>img1_2.png\<close>. On the
  names of the first model the run is a run of the digits \<^verbatim>\<open>0-9\<close>.
\<close>

lemma first_run_only:
  "manifest [''img1_2.png'', ''img1_10.png''] = [''img1_10.png'', ''img1_2.png'']"
  by code_simp

lemma keyfn_first_digit_run:
  assumes "\<forall>c\<in>set pre. \<not> is_digit c" "run \<noteq> []" "\<forall>c\<in>set run. is_digit c"
    "post = [] \<or> \<not> is_digit (hd post)"
  shows "re_search_digits (pre @ run @ post) = Some run
         \<and> fst (keyfn (pre @ run @ post)) = py_int run"
proof -
  have "re_search_digits (pre @ run @ post) = Some run"
    using assms by (rule re_search_digits_run)
  then show ?thesis by (simp add: keyfn_def)
qed

text \<open>
  Claim C4 says that the numeric part of the sort key comes from the first maximal run of
  ASCII digits. The digit class of the pattern is wider. In the name \<^verbatim>\<open>img\<close>, U+0663
  (the Arabic-Indic digit three), \<^verbatim>\<open>_2.png\<close> the first run of ASCII digits is \<^verbatim>\<open>2\<close>, and
  the key number is 3; in \<^verbatim>\<open>img1\<close>, U+0663, \<^verbatim>\<open>.png\<close> the first run of ASCII digits is
  \<^verbatim>\<open>1\<close>, and the key number is 13.
\<close>

theorem C4_counterexample:
  "key_number (cps ''img'' @ [0x663] @ cps ''_2.png'') = Some 3
   \<and> ascii_digit_run (cps ''img'' @ [0x663] @ cps ''_2.png'') = Some (cps ''2'')
   \<and> int_str (cps ''2'') = Some 2
   \<and> key_number (cps ''img1'' @ [0x663] @ cps ''.png'') = Some 13
   \<and> ascii_digit_run (cps ''img1'' @ [0x663] @ cps ''.png'') = Some (cps ''1'')
   \<and> int_str (cps ''1'') = Some 1"
  by code_simp

text \<open>
  Claim C4, amended. The numeric part of the sort key comes from the first maximal run of
  decimal digits, wherever it stands in the name, a decimal digit being any character that
  \<^verbatim>\<open>\d\<close> matches in a \<^verbatim>\<open>str\<close> pattern (the Unicode decimal digits, the ASCII digits among
  them): if the name is \<open>pre @ run @ post\<close>, where \<open>pre\<close> holds no decimal digit, \<open>run\<close> is
  a non-empty string of decimal digits and \<open>post\<close> is empty or starts with a character that
  is no decimal digit, then the match is \<open>run\<close> and the numeric part is \<^verbatim>\<open>int(run)\<close>, which
  does not raise, whatever digits \<open>post\<close> holds further on. In a name whose decimal digits
  are all ASCII digits this run is the first maximal run of ASCII digits.
\<close>

theorem C4_first_decimal_run:
  assumes "\<forall>c\<in>set pre. \<not> is_decimal c" "run \<noteq> []" "\<forall>c\<in>set run. is_decimal c"
    "post = [] \<or> \<not> is_decimal (hd post)"
  shows "re_search_decimal (pre @ run @ post) = Some run
         \<and> key_number (pre @ run @ post) = int_str run \<and> int_str run \<noteq> None
         \<and> ((\<forall>c\<in>set (pre @ run @ post). is_decimal c \<longrightarrow> ascii_digit c)
              \<longrightarrow> ascii_digit_run (pre @ run @ post) = Some run)"
proof -
  have m: "re_search_decimal (pre @ run @ post) = Some run"
    using assms by (rule re_search_decimal_run)
  then have k: "key_number (pre @ run @ post) = int_str run"
    by (simp add: key_number_def)
  have v: "int_str run \<noteq> None"
    using assms(2,3) by (simp add: int_str_def parse_decimals_Some)
  have a: "ascii_digit_run (pre @ run @ post) = Some run"
    if "\<forall>c\<in>set (pre @ run @ post). is_decimal c \<longrightarrow> ascii_digit c"
    using that m ascii_digit_run_eq [of "pre @ run @ post"] by simp
  from m k v a show ?thesis by blast
qed

text \<open>
  \<^verbatim>\<open>img10_v2.jpg\<close> has the key 10, not 2, and its run is the first run of ASCII digits; the
  name with the Arabic-Indic digit has the key 3.
\<close>

theorem C4_first_decimal_run_witness:
  "key_number (cps ''img10_v2.jpg'') = Some 10
   \<and> ascii_digit_run (cps ''img10_v2.jpg'') = Some (cps ''10'')
   \<and> re_search_decimal (cps ''img'' @ [0x663] @ cps ''_2.png'') = Some [0x663]
   \<and> key_number (cps ''img'' @ [0x663] @ cps ''_2.png'') = Some 3"
proof -
  have h: "\<forall>c\<in>set (cps ''img''). \<not> is_decimal c" "cps ''10'' \<noteq> []"
    "\<forall>c\<in>set (cps ''10''). is_decimal c"
    "cps ''_v2.jpg'' = [] \<or> \<not> is_decimal (hd (cps ''_v2.jpg''))"
    by code_simp+
  have a: "\<forall>c\<in>set (cps ''img'' @ cps ''10'' @ cps ''_v2.jpg''). is_decimal c \<longrightarrow> ascii_digit c"
    by code_simp
  have e: "cps ''img'' @ cps ''10'' @ cps ''_v2.jpg'' = cps ''img10_v2.jpg''"
    by (simp add: cps_def)
  have v: "int_str (cps ''10'') = Some 10" by code_simp
  have g: "\<forall>c\<in>set (cps ''img''). \<not> is_decimal c" "[0x663] \<noteq> ([] :: int list)"
    "\<forall>c\<in>set [0x663]. is_decimal c"
    "cps ''_2.png'' = [] \<or> \<not> is_decimal (hd (cps ''_2.png''))"
    by code_simp+
  have w: "int_str [0x663] = Some 3" by code_simp
  from C4_first_decimal_run [OF h] a e v C4_first_decimal_run [OF g] w
  show ?thesis by simp
qed

subsection \<open>C5: subdirectories\<close>

text \<open>
  Claim C5 says that a subdirectory never appears in the manifest, even when its name
  starts with \<^verbatim>\<open>img\<close> and has an allowed extension. The script looks at the names only:
  a directory that holds the subdirectory \<^verbatim>\<open>img1.png\<close> gets a manifest that lists it.
\<close>

theorem C5_counterexample:
  "os_listdir (Directory True True [(''img1.png'', Subdirectory)]) = Inr [''img1.png'']
   \<and> manifest [''img1.png''] = [''img1.png'']
   \<and> main 0 (Directory True True [(''img1.png'', Subdirectory)])
       = (0, Directory True True
              [(''images.json'', RegularFile True (utf8 (json_dump [''img1.png'']))),
               (''img1.png'', Subdirectory)])"
  by code_simp

text \<open>
  Claim C5, amended. Entries are filtered by their names alone. Listing a readable
  directory that holds subdirectories is no error, and a subdirectory is in the manifest
  if and only if its name passes the prefix and extension checks: one whose name does not
  pass is left out, one whose name passes is listed like a file.
\<close>

theorem C5_filter_by_name_only:
  assumes "(n, Subdirectory) \<in> set es"
  shows "os_listdir (Directory True w es) = Inr (map fst es)
         \<and> (n \<in> set (manifest (map fst es)) \<longleftrightarrow> keep n)"
proof -
  from assms have "n \<in> set (map fst es)" by force
  then show ?thesis by (simp add: set_manifest)
qed

text \<open>The subdirectory \<^verbatim>\<open>thumbs\<close> is left out, the subdirectory \<^verbatim>\<open>img1.png\<close> is listed.\<close>

theorem C5_filter_by_name_only_witness:
  "''thumbs'' \<notin> set (manifest (map fst [(''thumbs'', Subdirectory), (''img1.png'', Subdirectory)]))
   \<and> ''img1.png''
        \<in> set (manifest (map fst [(''thumbs'', Subdirectory), (''img1.png'', Subdirectory)]))"
proof -
  let ?es = "[(''thumbs'', Subdirectory), (''img1.png'', Subdirectory)]"
  have h: "(''thumbs'', Subdirectory) \<in> set ?es" "(''img1.png'', Subdirectory) \<in> set ?es"
    by simp_all
  have k: "\<not> keep ''thumbs''" "keep ''img1.png''" by code_simp+
  from C5_filter_by_name_only [OF h(1)] C5_filter_by_name_only [OF h(2)] k
  show ?thesis by blast
qed

subsection \<open>C6: a directory that cannot be listed\<close>

text \<open>
  Claim C6. If the image directory cannot be listed (it is missing, it is no directory, or
  it is not readable), the run ends with a non-zero exit status before anything is
  written: the file system is left as it was, so \<^verbatim>\<open>images.json\<close> is not created, and an
  \<^verbatim>\<open>images.json\<close> that was there keeps its bytes.
\<close>

theorem C6_unlistable_no_write:
  assumes "fs = Missing \<or> fs = NotADirectory \<or> (\<exists>w es. fs = Directory False w es)"
  shows "(\<exists>e. os_listdir fs = Inl e) \<and> fst (main slot fs) \<noteq> 0 \<and> snd (main slot fs) = fs
         \<and> read_file ''images.json'' (snd (main slot fs)) = read_file ''images.json'' fs"
proof -
  from assms obtain e where "os_listdir fs = Inl e" by auto
  then show ?thesis by (simp add: main_Inl)
qed

text \<open>An unreadable directory with an old \<^verbatim>\<open>images.json\<close>, a missing one, and a file.\<close>

theorem C6_unlistable_no_write_witness:
  "fst (main 0 (Directory False True
          [(''images.json'', RegularFile True ''[]''), (''img1.png'', RegularFile True [])])) \<noteq> 0
   \<and> snd (main 0 (Directory False True
          [(''images.json'', RegularFile True ''[]''), (''img1.png'', RegularFile True [])]))
       = Directory False True
          [(''images.json'', RegularFile True ''[]''), (''img1.png'', RegularFile True [])]
   \<and> read_file ''images.json'' (snd (main 0 (Directory False True
          [(''images.json'', RegularFile True ''[]''), (''img1.png'', RegularFile True [])])))
       = Some ''[]''
   \<and> fst (main 0 Missing) \<noteq> 0 \<and> snd (main 0 Missing) = Missing
   \<and> fst (main 0 NotADirectory) \<noteq> 0 \<and> snd (main 0 NotADirectory) = NotADirectory"
proof -
  let ?fs = "Directory False True
          [(''images.json'', RegularFile True ''[]''), (''img1.png'', RegularFile True [])]"
  have h1: "?fs = Missing \<or> ?fs = NotADirectory \<or> (\<exists>w es. ?fs = Directory False w es)"
    by blast
  have h2: "Missing = Missing \<or> Missing = NotADirectory
              \<or> (\<exists>w es. Missing = Directory False w es)"
    by simp
  have h3: "NotADirectory = Missing \<or> NotADirectory = NotADirectory
              \<or> (\<exists>w es. NotADirectory = Directory False w es)"
    by simp
  have r: "read_file ''images.json'' ?fs = Some ''[]''" by simp
  from C6_unlistable_no_write [OF h1, of 0] C6_unlistable_no_write [OF h2, of 0]
    C6_unlistable_no_write [OF h3, of 0] r
  show ?thesis by simp
qed

subsection \<open>C7: running twice\<close>

text \<open>
  Claim C7. When a run succeeds and the script is run again on the directory as the first
  run left it (the image files unchanged, \<^verbatim>\<open>images.json\<close> now among the entries, wherever
  the listing shows it), the second run succeeds too and leaves the same bytes in
  \<^verbatim>\<open>images.json\<close>: the serialised manifest of the names the first run listed.
\<close>

theorem C7_second_run_identical:
  assumes "main slot fs = (0, fs1)"
  shows "main slot' fs1 = (0, fs1)
         \<and> read_file ''images.json'' (snd (main slot' fs1)) = read_file ''images.json'' fs1
         \<and> (\<exists>names. os_listdir fs = Inr names
               \<and> read_file ''images.json'' fs1 = Some (utf8 (json_dump (manifest names))))"
proof -
  from main_success [OF assms] obtain w es es1 where
    fs: "fs = Directory True w es" and fs1: "fs1 = Directory True w es1" and
    m: "map_of es1 ''images.json''
             = Some (RegularFile True (utf8 (json_dump (manifest (map fst es)))))" and
    e: "manifest (map fst es1) = manifest (map fst es)" and
    rw: "rewrite ''images.json'' (utf8 (json_dump (manifest (map fst es)))) es1 = es1"
    by blast
  have l1: "os_listdir fs1 = Inr (map fst es1)" by (simp add: fs1)
  have "write_file slot' ''images.json'' (utf8 (json_dump (manifest (map fst es)))) fs1
          = Inr fs1"
    unfolding fs1 by (rule write_file_again [OF m rw])
  then have again: "main slot' fs1 = (0, fs1)"
    by (simp only: main_Inr [OF l1] e sum.case)
  moreover have "os_listdir fs = Inr (map fst es)" by (simp add: fs)
  moreover have "read_file ''images.json'' fs1
                   = Some (utf8 (json_dump (manifest (map fst es))))"
    by (simp add: fs1 m)
  ultimately show ?thesis by simp
qed

text \<open>
  The first run puts \<^verbatim>\<open>images.json\<close> between the two images; the second run finds it
  there and writes the same bytes.
\<close>

theorem C7_second_run_identical_witness:
  "main 1 (Directory True True
            [(''img2.png'', RegularFile True []), (''IMG1.PNG'', RegularFile True [])])
     = (0, Directory True True [(''img2.png'', RegularFile True []),
             (''images.json'', RegularFile True (utf8 (json_dump [''IMG1.PNG'', ''img2.png'']))),
             (''IMG1.PNG'', RegularFile True [])])
   \<and> main 0 (Directory True True [(''img2.png'', RegularFile True []),
             (''images.json'', RegularFile True (utf8 (json_dump [''IMG1.PNG'', ''img2.png'']))),
             (''IMG1.PNG'', RegularFile True [])])
     = (0, Directory True True [(''img2.png'', RegularFile True []),
             (''images.json'', RegularFile True (utf8 (json_dump [''IMG1.PNG'', ''img2.png'']))),
             (''IMG1.PNG'', RegularFile True [])])"
proof -
  have h: "main 1 (Directory True True
            [(''img2.png'', RegularFile True []), (''IMG1.PNG'', RegularFile True [])])
     = (0, Directory True True [(''img2.png'', RegularFile True []),
             (''images.json'', RegularFile True (utf8 (json_dump [''IMG1.PNG'', ''img2.png'']))),
             (''IMG1.PNG'', RegularFile True [])])"
    by code_simp
  from C7_second_run_identical [OF h, of 0] h show ?thesis by blast
qed

subsection \<open>C8: the value of the digit run\<close>

text \<open>
  Claim C8. Whatever the length of the first digit run \<open>d\<^sub>0 \<dots> d\<^sub>k\<close>, the numeric part of
  the sort key is its exact decimal value, the sum of the \<open>d\<^sub>i * 10 ^ (k - i)\<close> in the
  unbounded integers, every digit counting between 0 and 9: nothing wraps or is cut off.
\<close>

theorem C8_exact_decimal_value:
  assumes "\<forall>c\<in>set pre. \<not> is_digit c" "run \<noteq> []" "\<forall>c\<in>set run. is_digit c"
    "post = [] \<or> \<not> is_digit (hd post)"
  shows "fst (keyfn (pre @ run @ post))
           = (\<Sum>i<length run. digit_val (run ! i) * 10 ^ (length run - 1 - i))
         \<and> (\<forall>i<length run. 0 \<le> digit_val (run ! i) \<and> digit_val (run ! i) \<le> 9)"
proof -
  have "re_search_digits (pre @ run @ post) = Some run"
    using assms by (rule re_search_digits_run)
  then have "fst (keyfn (pre @ run @ post)) = py_int run" by (simp add: keyfn_def)
  moreover have "0 \<le> digit_val (run ! i) \<and> digit_val (run ! i) \<le> 9"
    if "i < length run" for i
    using that assms(3) by (intro digit_val_range) simp
  ultimately show ?thesis by (simp add: py_int_sum)
qed

text \<open>A run of thirty digits, beyond every 64-bit integer.\<close>

theorem C8_exact_decimal_value_witness:
  "fst (keyfn (''img'' @ ''123456789012345678901234567890'' @ ''.png''))
     = (\<Sum>i<length ''123456789012345678901234567890''.
          digit_val (''123456789012345678901234567890'' ! i)
            * 10 ^ (length ''123456789012345678901234567890'' - 1 - i))
   \<and> fst (keyfn ''img123456789012345678901234567890.png'') = 123456789012345678901234567890"
proof -
  have h: "\<forall>c\<in>set ''img''. \<not> is_digit c" "''123456789012345678901234567890'' \<noteq> []"
    "\<forall>c\<in>set ''123456789012345678901234567890''. is_digit c"
    "''.png'' = [] \<or> \<not> is_digit (hd ''.png'')"
    by code_simp+
  have v: "fst (keyfn ''img123456789012345678901234567890.png'')
             = 123456789012345678901234567890"
    by code_simp
  from C8_exact_decimal_value [OF h] v show ?thesis by blast
qed

subsection \<open>C9: the output file is not listed\<close>

text \<open>
  Claim C9 says that \<^verbatim>\<open>images.json\<close> is never in the manifest although its lowercased name
  starts with \<^verbatim>\<open>img\<close>. The name starts with \<^verbatim>\<open>ima\<close>: it does not pass the prefix check.
\<close>

theorem C9_counterexample: "\<not> prefix ''img'' (lower ''images.json'')"
  by code_simp

text \<open>
  Claim C9, amended. The string \<^verbatim>\<open>images.json\<close> is never an element of the manifest: its
  lowercased name does not start with \<^verbatim>\<open>img\<close>, and its extension \<^verbatim>\<open>.json\<close> is not in the
  allowed set, so the script's own output file in the scanned directory is always
  filtered out.
\<close>

theorem C9_images_json_excluded:
  "''images.json'' \<notin> set (manifest names)
   \<and> \<not> prefix ''img'' (lower ''images.json'')
   \<and> snd (splitext (lower ''images.json'')) = ''.json''
   \<and> ''.json'' \<notin> allowed"
proof -
  have "\<not> prefix ''img'' (lower ''images.json'')
        \<and> snd (splitext (lower ''images.json'')) = ''.json'' \<and> ''.json'' \<notin> allowed"
    by code_simp
  then show ?thesis by (simp add: set_manifest not_keep_images_json)
qed

text \<open>A listing that holds \<^verbatim>\<open>images.json\<close> beside an image.\<close>

theorem C9_images_json_excluded_witness:
  "''images.json'' \<notin> set (manifest [''images.json'', ''img1.png''])
   \<and> ''img1.png'' \<in> set (manifest [''images.json'', ''img1.png''])"
proof -
  have "''img1.png'' \<in> set (manifest [''images.json'', ''img1.png''])" by code_simp
  with C9_images_json_excluded [of "[''images.json'', ''img1.png'']"] show ?thesis by blast
qed

subsection \<open>C10: names as they are, each once\<close>

text \<open>
  Claim C10. Every element of the manifest is a name of the directory listing, as it is
  listed, with its letter case: lowercasing serves the filter and the sort key only. A name
  that passes the filter is in the manifest as often as in the listing, and a listing has
  every name once, so each qualifying entry appears exactly once.
\<close>

theorem C10_verbatim_once:
  "set (manifest names) \<subseteq> set names
   \<and> (\<forall>n. keep n \<longrightarrow> count_list (manifest names) n = count_list names n)
   \<and> (distinct names \<longrightarrow> (\<forall>n\<in>set names. keep n \<longrightarrow> count_list (manifest names) n = 1))"
  by (auto simp: set_manifest count_list_manifest count_list_distinct)

text \<open>\<^verbatim>\<open>IMG3.GIF\<close> is listed once, in capitals; \<^verbatim>\<open>img3.gif\<close> is not in the manifest.\<close>

theorem C10_verbatim_once_witness:
  "distinct [''IMG3.GIF'', ''img1.jpg'', ''cover.png''] \<and> keep ''IMG3.GIF''
   \<and> count_list (manifest [''IMG3.GIF'', ''img1.jpg'', ''cover.png'']) ''IMG3.GIF'' = 1
   \<and> lower ''IMG3.GIF'' \<notin> set (manifest [''IMG3.GIF'', ''img1.jpg'', ''cover.png''])"
proof -
  let ?names = "[''IMG3.GIF'', ''img1.jpg'', ''cover.png'']"
  have h: "distinct ?names \<and> ''IMG3.GIF'' \<in> set ?names \<and> keep ''IMG3.GIF''
           \<and> lower ''IMG3.GIF'' \<notin> set ?names"
    by code_simp
  from C10_verbatim_once [of ?names] h show ?thesis by blast
qed

end
